theory Spec2Isabelle
  imports Main "HOL-Library.Product_Lexorder"
begin

section \<open>Texts and character classes\<close>

text \<open>
  The tool works on Python \<open>str\<close> values. A file's content is modelled as a \<open>string\<close>:
  a list of characters, where a \<open>char\<close> stands for one code point in the range 0..255.
  The classes \<open>\s\<close>, \<open>\d\<close> and \<open>\w\<close> of Python's \<open>re\<close> module (Unicode matching, the
  default for \<open>str\<close> patterns) are written out on that range.

  The change descriptions of the tool contain code points above 255 (the warning sign and
  the arrow), so a description is a list of code points, \<open>ustr\<close>.
\<close>

type_synonym ustr = "int list"

definition u :: "string \<Rightarrow> ustr" where
  "u s = map of_char s"

definition in_range :: "int \<Rightarrow> int \<Rightarrow> char \<Rightarrow> bool" where
  "in_range lo hi c = (lo \<le> of_char c \<and> (of_char c :: int) \<le> hi)"

definition is_space :: "char \<Rightarrow> bool" where
  "is_space c = (in_range 9 13 c \<or> in_range 28 32 c \<or> in_range 133 133 c \<or> in_range 160 160 c)"

definition is_digit :: "char \<Rightarrow> bool" where
  "is_digit c = in_range 48 57 c"

definition is_word :: "char \<Rightarrow> bool" where
  "is_word c = (in_range 48 57 c \<or> in_range 65 90 c \<or> in_range 95 95 c \<or> in_range 97 122 c
     \<or> in_range 170 170 c \<or> in_range 178 179 c \<or> in_range 181 181 c \<or> in_range 185 186 c
     \<or> in_range 188 190 c \<or> in_range 192 214 c \<or> in_range 216 246 c \<or> in_range 248 255 c)"

section \<open>String operations of Python\<close>

text \<open>\<open>old in s\<close>: the substring test.\<close>

fun is_in :: "string \<Rightarrow> string \<Rightarrow> bool" where
  "is_in old [] = (old = [])"
| "is_in old (c # cs) = (take (length old) (c # cs) = old \<or> is_in old cs)"

text \<open>
  \<open>s.replace(old, new)\<close>: every occurrence of \<open>old\<close>, found from left to right without
  overlap, is replaced. With an empty \<open>old\<close>, \<open>new\<close> is inserted before every character
  and at the end.
\<close>

function replace :: "string \<Rightarrow> string \<Rightarrow> string \<Rightarrow> string" where
  "replace old new [] = (if old = [] then new else [])"
| "replace old new (c # cs) =
     (if old = [] then new @ c # replace old new cs
      else if take (length old) (c # cs) = old
           then new @ replace old new (drop (length old) (c # cs))
           else c # replace old new cs)"
  by pat_completeness auto
termination
  by (relation "measure (\<lambda>(old, new, s). length s)") auto

text \<open>\<open>s.strip()\<close> removes the white space at both ends.\<close>

definition strip :: "string \<Rightarrow> string" where
  "strip s = rev (dropWhile is_space (rev (dropWhile is_space s)))"

text \<open>\<open>str(n)\<close> for a non-negative integer, as the f-string prints \<open>len(matches)\<close>.\<close>

fun digits_rev :: "nat \<Rightarrow> nat \<Rightarrow> int list" where
  "digits_rev 0 n = []"
| "digits_rev (Suc fuel) n =
     (if n < 10 then [48 + int n] else (48 + int (n mod 10)) # digits_rev fuel (n div 10))"

definition str_of_nat :: "nat \<Rightarrow> ustr" where
  "str_of_nat n = rev (digits_rev (Suc n) n)"

section \<open>Regular expressions of Python's re module\<close>

text \<open>
  The patterns of the two scripts use literal characters, greedy repetition of a
  one-character class (\<open>\w+\<close>, \<open>\s*\<close>, \<open>[^)]+\<close>), the word boundary \<open>\b\<close>, numbered
  groups and one optional group. \<open>rm r p s g\<close> lists, in the order in which the
  backtracking matcher tries them, the ways in which \<open>r\<close> matches a prefix of \<open>s\<close>:
  each with the text matched and the groups captured. \<open>p\<close> is the character before \<open>s\<close>
  in the whole text (None at its start), which \<open>\b\<close> looks at. The match the
  matcher reports is the first of the list.
\<close>

datatype regex =
    Lit string
  | Star "char \<Rightarrow> bool"
  | Plus "char \<Rightarrow> bool"
  | WordB
  | Group nat regex
  | Opt regex
  | Seq regex regex

type_synonym caps = "(nat \<times> string) list"

fun lastc :: "char option \<Rightarrow> string \<Rightarrow> char option" where
  "lastc p [] = p"
| "lastc p (x # xs) = Some (last (x # xs))"

definition word_opt :: "char option \<Rightarrow> bool" where
  "word_opt p = (case p of None \<Rightarrow> False | Some c \<Rightarrow> is_word c)"

definition at_boundary :: "char option \<Rightarrow> string \<Rightarrow> bool" where
  "at_boundary p s = (word_opt p \<noteq> word_opt (case s of [] \<Rightarrow> None | c # _ \<Rightarrow> Some c))"

fun rm :: "regex \<Rightarrow> char option \<Rightarrow> string \<Rightarrow> caps \<Rightarrow> (string \<times> caps) list" where
  "rm (Lit w) p s g = (if take (length w) s = w then [(w, g)] else [])"
| "rm (Star c) p s g = map (\<lambda>k. (take k s, g)) (rev [0..<Suc (length (takeWhile c s))])"
| "rm (Plus c) p s g = map (\<lambda>k. (take k s, g)) (rev [1..<Suc (length (takeWhile c s))])"
| "rm WordB p s g = (if at_boundary p s then [([], g)] else [])"
| "rm (Group i r) p s g = map (\<lambda>mg. (fst mg, (i, fst mg) # snd mg)) (rm r p s g)"
| "rm (Opt r) p s g = rm r p s g @ [([], g)]"
| "rm (Seq a b) p s g =
     concat (map (\<lambda>mg. map (\<lambda>mg2. (fst mg @ fst mg2, snd mg2))
                              (rm b (lastc p (fst mg)) (drop (length (fst mg)) s) (snd mg)))
                 (rm a p s g))"

fun seqs :: "regex list \<Rightarrow> regex" where
  "seqs [] = Lit []"
| "seqs [r] = r"
| "seqs (r # rs) = Seq r (seqs rs)"

fun ngroups :: "regex \<Rightarrow> nat" where
  "ngroups (Group i r) = max i (ngroups r)"
| "ngroups (Opt r) = ngroups r"
| "ngroups (Seq a b) = max (ngroups a) (ngroups b)"
| "ngroups _ = 0"

text \<open>\<open>re.search\<close>: is there a match starting at some position, tried from the left.\<close>

fun search_from :: "regex \<Rightarrow> char option \<Rightarrow> string \<Rightarrow> bool" where
  "search_from r p [] = (rm r p [] [] \<noteq> [])"
| "search_from r p (c # cs) = (rm r p (c # cs) [] \<noteq> [] \<or> search_from r (Some c) cs)"

definition re_search :: "regex \<Rightarrow> string \<Rightarrow> bool" where
  "re_search r s = search_from r None s"

text \<open>
  The scanner behind \<open>re.findall\<close>, \<open>re.sub\<close> and \<open>re.subn\<close>: the non-overlapping
  matches from left to right, with the characters between them. After an empty match
  the scanner moves one character on.
\<close>

datatype seg = Copy char | Match string caps

function scan :: "regex \<Rightarrow> char option \<Rightarrow> string \<Rightarrow> seg list" where
  "scan r p [] = (case rm r p [] [] of [] \<Rightarrow> [] | mg # _ \<Rightarrow> [Match (fst mg) (snd mg)])"
| "scan r p (c # cs) =
     (case rm r p (c # cs) [] of
        [] \<Rightarrow> Copy c # scan r (Some c) cs
      | mg # _ \<Rightarrow>
          (if fst mg = [] then Match [] (snd mg) # Copy c # scan r (Some c) cs
           else Match (fst mg) (snd mg)
                  # scan r (lastc p (fst mg)) (drop (length (fst mg)) (c # cs))))"
  by pat_completeness auto
termination
  by (relation "measure (\<lambda>(r, p, s). length s)") auto

definition is_match :: "seg \<Rightarrow> bool" where
  "is_match x = (case x of Copy _ \<Rightarrow> False | Match _ _ \<Rightarrow> True)"

text \<open>\<open>len(re.findall(r, s))\<close>: one entry for each match.\<close>

definition findall_count :: "regex \<Rightarrow> string \<Rightarrow> nat" where
  "findall_count r s = length (filter is_match (scan r None s))"

text \<open>
  The replacement template of \<open>re.sub\<close>: literal text and group references \<open>\1\<close>, \<open>\2\<close>.
  A reference to a group that the pattern does not have is an error, raised when the
  template is read, before any match is looked for; a group that did not take part in
  the match stands for the empty string.
\<close>

datatype piece = TLit string | TGroup nat

datatype error = InvalidGroupReference | NoSuchGroup | FileNotFound

definition group_text :: "caps \<Rightarrow> nat \<Rightarrow> string option" where
  "group_text g i = map_of g i"

fun expand_piece :: "caps \<Rightarrow> piece \<Rightarrow> string" where
  "expand_piece g (TLit w) = w"
| "expand_piece g (TGroup i) = (case group_text g i of None \<Rightarrow> [] | Some w \<Rightarrow> w)"

definition expand :: "piece list \<Rightarrow> caps \<Rightarrow> string" where
  "expand t g = concat (map (expand_piece g) t)"

fun piece_ok :: "regex \<Rightarrow> piece \<Rightarrow> bool" where
  "piece_ok r (TLit w) = True"
| "piece_ok r (TGroup i) = (1 \<le> i \<and> i \<le> ngroups r)"

fun seg_text :: "(string \<Rightarrow> caps \<Rightarrow> string) \<Rightarrow> seg \<Rightarrow> string" where
  "seg_text f (Copy c) = [c]"
| "seg_text f (Match m g) = f m g"

definition re_sub :: "regex \<Rightarrow> piece list \<Rightarrow> string \<Rightarrow> error + string" where
  "re_sub r t s =
     (if list_all (piece_ok r) t
      then Inr (concat (map (seg_text (\<lambda>m g. expand t g)) (scan r None s)))
      else Inl InvalidGroupReference)"

text \<open>\<open>re.subn\<close> with a function as replacement returns the new text and the number of matches.\<close>

fun seg_text_err :: "(string \<Rightarrow> caps \<Rightarrow> error + string) \<Rightarrow> seg \<Rightarrow> error + string" where
  "seg_text_err f (Copy c) = Inr [c]"
| "seg_text_err f (Match m g) = f m g"

fun concat_err :: "(error + string) list \<Rightarrow> error + string" where
  "concat_err [] = Inr []"
| "concat_err (x # xs) =
     (case x of Inl e \<Rightarrow> Inl e
      | Inr w \<Rightarrow> (case concat_err xs of Inl e \<Rightarrow> Inl e | Inr ws \<Rightarrow> Inr (w @ ws)))"

definition re_subn_fn ::
  "regex \<Rightarrow> (string \<Rightarrow> caps \<Rightarrow> error + string) \<Rightarrow> string \<Rightarrow> error + string \<times> nat" where
  "re_subn_fn r f s =
     (case concat_err (map (seg_text_err f) (scan r None s)) of
        Inl e \<Rightarrow> Inl e
      | Inr w \<Rightarrow> Inr (w, length (filter is_match (scan r None s))))"

text \<open>
  \<open>match.group(i)\<close>: IndexError for a group the pattern does not have, None for a group
  that did not take part in the match.
\<close>

definition group :: "regex \<Rightarrow> caps \<Rightarrow> nat \<Rightarrow> error + string option" where
  "group r g i = (if 1 \<le> i \<and> i \<le> ngroups r then Inr (group_text g i) else Inl NoSuchGroup)"

section \<open>migrate\_godot3\_to\_4.py: the rule catalog\<close>

definition arrow :: ustr where
  "arrow = [0x2192]"

definition warn :: ustr where
  "warn = [0x26A0, 0xFE0F]"

definition pat_instance :: regex where
  \<open>pat_instance = seqs [WordB, Group 1 (Plus is_word), Lit ''.instance('']\<close>

definition pat_randomize :: regex where
  \<open>pat_randomize = seqs [Star is_space, Lit ''randomize()'', Star is_space, Lit [CHR 0x0A]]\<close>

definition pat_export :: regex where
  \<open>pat_export = seqs [Lit ''export('', Group 1 (Plus is_word), Lit '')'', Plus is_space,
                       Lit ''var'', Plus is_space, Group 2 (Plus is_word)]\<close>

definition pat_export_range :: regex where
  \<open>pat_export_range = seqs [Lit ''export('', Plus is_word, Lit '','', Star is_space, Plus is_digit]\<close>

definition pat_whole_word :: "string \<Rightarrow> regex" where
  \<open>pat_whole_word old = seqs [WordB, Lit old, WordB]\<close>

definition pat_move_and_slide :: regex where
  \<open>pat_move_and_slide = seqs [Lit ''move_and_slide('', Plus (\<lambda>c. c \<noteq> CHR '')''), Lit '')'']\<close>

text \<open>
  A step of \<open>migrate_file\<close> is an \<open>if\<close> over the current content. A mechanical step
  replaces the content and appends a description; an advisory step only appends a
  description. The description of a mechanical step is computed from the content before
  the replacement (the typed-export step prints \<open>len(matches)\<close>).
\<close>

datatype rule =
    Mechanical "string \<Rightarrow> bool" "string \<Rightarrow> error + string" "string \<Rightarrow> ustr"
  | Advisory "string \<Rightarrow> bool" ustr

definition literal_rule :: "string \<Rightarrow> string \<Rightarrow> ustr \<Rightarrow> rule" where
  "literal_rule old new msg = Mechanical (is_in old) (\<lambda>c. Inr (replace old new c)) (\<lambda>c. msg)"

definition pattern_rule :: "regex \<Rightarrow> piece list \<Rightarrow> ustr \<Rightarrow> rule" where
  "pattern_rule r t msg = Mechanical (re_search r) (re_sub r t) (\<lambda>c. msg)"

definition export_rule :: rule where
  \<open>export_rule = Mechanical (\<lambda>c. findall_count pat_export c \<noteq> 0)
     (re_sub pat_export [TLit ''@export var '', TGroup 2])
     (\<lambda>c. u ''export(Type) '' @ arrow @ u '' @export ('' @ str_of_nat (findall_count pat_export c)
            @ u '' occurrences)'')\<close>

definition node_rename_rule :: "string \<Rightarrow> string \<Rightarrow> rule" where
  \<open>node_rename_rule old new =
     Mechanical (\<lambda>c. is_in old c \<and> re_search (pat_whole_word old) c)
       (re_sub (pat_whole_word old) [TLit new])
       (\<lambda>c. u old @ u '' '' @ arrow @ u '' '' @ u new)\<close>

definition node_renames :: "(string \<times> string) list" where
  \<open>node_renames = [(''KinematicBody2D'', ''CharacterBody2D''),
                   (''KinematicBody'', ''CharacterBody3D''),
                   (''Spatial'', ''Node3D'')]\<close>

definition catalog :: "rule list" where
  \<open>catalog =
   [ Advisory (\<lambda>c. is_in ''File.new()'' c \<or> is_in ''var file = File'' c)
       (warn @ u ''  MANUAL: File API needs migration to FileAccess''),
     pattern_rule pat_instance [TGroup 1, TLit ''.instantiate(''] (u ''instance() '' @ arrow @ u '' instantiate()''),
     literal_rule ''rand_range('' ''randf_range('' (u ''rand_range() '' @ arrow @ u '' randf_range()''),
     pattern_rule pat_randomize [] (u ''Removed randomize() call (automatic in Godot 4)''),
     literal_rule ''deg2rad('' ''deg_to_rad('' (u ''deg2rad() '' @ arrow @ u '' deg_to_rad()''),
     literal_rule ''rad2deg('' ''rad_to_deg('' (u ''rad2deg() '' @ arrow @ u '' rad_to_deg()''),
     literal_rule ''BUTTON_LEFT'' ''MOUSE_BUTTON_LEFT'' (u ''BUTTON_LEFT '' @ arrow @ u '' MOUSE_BUTTON_LEFT''),
     literal_rule ''BUTTON_RIGHT'' ''MOUSE_BUTTON_RIGHT'' (u ''BUTTON_RIGHT '' @ arrow @ u '' MOUSE_BUTTON_RIGHT''),
     literal_rule ''BUTTON_MIDDLE'' ''MOUSE_BUTTON_MIDDLE'' (u ''BUTTON_MIDDLE '' @ arrow @ u '' MOUSE_BUTTON_MIDDLE''),
     export_rule,
     Advisory (re_search pat_export_range)
       (warn @ u ''  MANUAL: export() with range needs @export_range()''),
     literal_rule ''export(NodePath)'' ''@export'' (u ''export(NodePath) '' @ arrow @ u '' @export''),
     literal_rule ''export(PackedScene)'' ''@export'' (u ''export(PackedScene) '' @ arrow @ u '' @export'') ]
   @ map (\<lambda>(old, new). node_rename_rule old new) node_renames @
   [ Advisory (re_search pat_move_and_slide)
       (warn @ u ''  MANUAL: move_and_slide() API changed - now uses velocity property''),
     Advisory (\<lambda>c. re_search (Lit ''func _ready('') c \<and> \<not> is_in ''super._ready()'' c)
       (warn @ u ''  CONSIDER: Add super._ready() call if extending custom class''),
     Advisory (\<lambda>c. re_search (Lit ''func _process('') c \<and> \<not> is_in ''super._process('' c)
       (warn @ u ''  CONSIDER: Add super._process() call if extending custom class''),
     Advisory (\<lambda>c. is_in ''Tween.new()'' c \<or> is_in ''$Tween'' c)
       (warn @ u ''  MANUAL: Tween is no longer a node - use create_tween()''),
     literal_rule ''get_tree().get_root()'' ''get_tree().root''
       (u ''get_tree().get_root() '' @ arrow @ u '' get_tree().root''),
     literal_rule ''OS.get_screen_size('' ''DisplayServer.screen_get_size(''
       (u ''OS.get_screen_size() '' @ arrow @ u '' DisplayServer.screen_get_size()''),
     Advisory (is_in ''yield('')
       (warn @ u ''  MANUAL: yield() '' @ arrow @ u '' await (syntax change required)''),
     Advisory (is_in ''weakref('')
       (warn @ u ''  MANUAL: WeakRef.get_ref() '' @ arrow @ u '' WeakRef.get()''),
     literal_rule ''var2str('' ''var_to_str('' (u ''var2str() '' @ arrow @ u '' var_to_str()''),
     literal_rule ''str2var('' ''str_to_var('' (u ''str2var() '' @ arrow @ u '' str_to_var()''),
     Advisory (is_in ''.extents'')
       (warn @ u ''  MANUAL: .extents '' @ arrow @ u '' .size (and multiply by 2 for collision shapes)'') ]\<close>

section \<open>migrate\_file\<close>

type_synonym progress = "string \<times> ustr list"

fun apply_rule :: "rule \<Rightarrow> progress \<Rightarrow> error + progress" where
  "apply_rule (Mechanical cond act descr) (content, local_changes) =
     (if cond content
      then (case act content of
              Inl e \<Rightarrow> Inl e
            | Inr content' \<Rightarrow> Inr (content', local_changes @ [descr content]))
      else Inr (content, local_changes))"
| "apply_rule (Advisory cond msg) (content, local_changes) =
     Inr (content, if cond content then local_changes @ [msg] else local_changes)"

fun run_rules :: "rule list \<Rightarrow> progress \<Rightarrow> error + progress" where
  "run_rules [] st = Inr st"
| "run_rules (r # rs) st =
     (case apply_rule r st of Inl e \<Rightarrow> Inl e | Inr st' \<Rightarrow> run_rules rs st')"

text \<open>
  \<open>migrate_file\<close> on the text read from the file: the new content, or None when the
  content after the last step equals the original, and the list of descriptions.
\<close>

definition migrate_file :: "string \<Rightarrow> error + string option \<times> ustr list" where
  "migrate_file original_content =
     (case run_rules catalog (original_content, []) of
        Inl e \<Rightarrow> Inl e
      | Inr (content, local_changes) \<Rightarrow>
          Inr (if content \<noteq> original_content then Some content else None, local_changes))"

section \<open>migrate\_directory\<close>

text \<open>
  The orchestrator reads every discovered file (given here as the sorted list of paths),
  runs \<open>migrate_file\<close> on it, counts, and writes the new content back unless the run is
  a dry run. The state is the file system, the list of paths written so far and the two
  counters of the summary. The report it prints is not modelled.
\<close>

record 'p run =
  files :: "'p \<Rightarrow> string option"
  written :: "'p list"
  files_changed :: nat
  total_changes :: nat

definition startswith :: "ustr \<Rightarrow> ustr \<Rightarrow> bool" where
  "startswith s pre = (take (length pre) s = pre)"

fun count_changes :: "ustr list \<Rightarrow> nat \<Rightarrow> nat" where
  "count_changes [] n = n"
| "count_changes (change # rest) n =
     count_changes rest (if \<not> startswith change warn then n + 1 else n)"

definition process_file :: "bool \<Rightarrow> 'p \<Rightarrow> 'p run \<Rightarrow> error + 'p run" where
  "process_file dry_run file_path st =
     (case files st file_path of
        None \<Rightarrow> Inl FileNotFound
      | Some text \<Rightarrow>
          (case migrate_file text of
             Inl e \<Rightarrow> Inl e
           | Inr (new_content, changes) \<Rightarrow>
               (if changes \<noteq> [] then
                  (let st1 = st\<lparr>total_changes := count_changes changes (total_changes st)\<rparr>
                   in case new_content of
                        None \<Rightarrow> Inr st1
                      | Some w \<Rightarrow>
                          (let st2 = st1\<lparr>files_changed := files_changed st1 + 1\<rparr>
                           in if \<not> dry_run
                              then Inr (st2\<lparr>files := (files st2)(file_path \<mapsto> w),
                                            written := written st2 @ [file_path]\<rparr>)
                              else Inr st2))
                else Inr st)))"

fun migrate_files :: "bool \<Rightarrow> 'p list \<Rightarrow> 'p run \<Rightarrow> error + 'p run" where
  "migrate_files dry_run [] st = Inr st"
| "migrate_files dry_run (file_path # rest) st =
     (case process_file dry_run file_path st of
        Inl e \<Rightarrow> Inl e
      | Inr st' \<Rightarrow> migrate_files dry_run rest st')"

definition migrate_directory :: "('p \<Rightarrow> string option) \<Rightarrow> 'p list \<Rightarrow> bool \<Rightarrow> error + 'p run" where
  "migrate_directory fs gd_files dry_run =
     migrate_files dry_run gd_files
       \<lparr>files = fs, written = [], files_changed = 0, total_changes = 0\<rparr>"

text \<open>The text a file holds after a run in apply mode: the new content if there is one.\<close>

definition content_after :: "string \<Rightarrow> error + string" where
  "content_after s =
     (case migrate_file s of
        Inl e \<Rightarrow> Inl e
      | Inr (new_content, changes) \<Rightarrow> Inr (case new_content of None \<Rightarrow> s | Some w \<Rightarrow> w))"

section \<open>fix\_connect\_calls.py\<close>

definition not_quote :: "char \<Rightarrow> bool" where
  \<open>not_quote c = (c \<noteq> CHR ''"'')\<close>

definition connect_pattern :: regex where
  \<open>connect_pattern =
     seqs [Lit ''.connect("'', Group 1 (Plus not_quote), Lit ''",'', Star is_space,
           Group 2 (Plus is_word), Lit '','', Star is_space, Lit ''"'', Group 3 (Plus not_quote),
           Lit ''"'',
           Opt (Group 4 (seqs [Star is_space, Lit '','', Star is_space, Lit ''['',
                               Star (\<lambda>c. c \<noteq> CHR '']''), Lit '']''])),
           Lit '')'']\<close>

text \<open>An f-string prints a group that is None as the word None.\<close>

definition fmt :: "string option \<Rightarrow> string" where
  "fmt x = (case x of None \<Rightarrow> ''None'' | Some w \<Rightarrow> w)"

definition replacer :: "string \<Rightarrow> caps \<Rightarrow> error + string" where
  \<open>replacer m g =
     (case (group connect_pattern g 1, group connect_pattern g 2,
            group connect_pattern g 3, group connect_pattern g 4) of
        (Inr signal_name, Inr object_name, Inr method_name, Inr g4) \<Rightarrow>
          (let params = (case g4 of None \<Rightarrow> [] | Some w \<Rightarrow> w)
           in if params \<noteq> []
              then Inr (''.connect("'' @ fmt signal_name @ ''", Callable('' @ fmt object_name
                        @ '', "'' @ fmt method_name @ ''").bind('' @ drop 1 (strip params))
              else Inr (''.connect("'' @ fmt signal_name @ ''", Callable('' @ fmt object_name
                        @ '', "'' @ fmt method_name @ ''"))''))
      | _ \<Rightarrow> Inl NoSuchGroup)\<close>

definition fix_connect_calls :: "string \<Rightarrow> error + string \<times> nat" where
  "fix_connect_calls content = re_subn_fn connect_pattern replacer content"

section \<open>Observing a run of the catalog\<close>

text \<open>
  To state what a run of the catalog does: whether a step's condition holds on a content,
  the content a step leaves, the description it appends, the content after all steps,
  and the list of the steps that fired, each with the content it saw.
\<close>

fun fires :: "rule \<Rightarrow> string \<Rightarrow> bool" where
  "fires (Mechanical cond act descr) c = cond c"
| "fires (Advisory cond msg) c = cond c"

fun is_mechanical :: "rule \<Rightarrow> bool" where
  "is_mechanical (Mechanical cond act descr) = True"
| "is_mechanical (Advisory cond msg) = False"

fun after :: "rule \<Rightarrow> string \<Rightarrow> string" where
  "after (Mechanical cond act descr) c =
     (if cond c then (case act c of Inl e \<Rightarrow> c | Inr c' \<Rightarrow> c') else c)"
| "after (Advisory cond msg) c = c"

fun description :: "rule \<Rightarrow> string \<Rightarrow> ustr" where
  "description (Mechanical cond act descr) c = descr c"
| "description (Advisory cond msg) c = msg"

fun final :: "rule list \<Rightarrow> string \<Rightarrow> string" where
  "final [] c = c"
| "final (r # rs) c = final rs (after r c)"

fun firings :: "rule list \<Rightarrow> string \<Rightarrow> (rule \<times> string) list" where
  "firings [] c = []"
| "firings (r # rs) c = (if fires r c then [(r, c)] else []) @ firings rs (after r c)"

fun safe :: "rule \<Rightarrow> bool" where
  "safe (Mechanical cond act descr) = (\<forall>c. \<exists>c'. act c = Inr c')"
| "safe (Advisory cond msg) = True"

text \<open>
  A description is marked when it starts with the warning sign exactly if its step is
  advisory.
\<close>

definition marked :: "rule \<Rightarrow> bool" where
  "marked r = (\<forall>c. startswith (description r c) warn = (\<not> is_mechanical r))"

text \<open>The sum of the weights of the characters of a text, and the source text of a segment.\<close>

definition wsum :: "(char \<Rightarrow> int) \<Rightarrow> string \<Rightarrow> int" where
  "wsum w s = sum_list (map w s)"

definition seg_src :: "seg \<Rightarrow> string" where
  "seg_src x = seg_text (\<lambda>m g. m) x"

text \<open>
  A pair of measures of a text, compared lexicographically: the number of its at-signs,
  and a weighted count of some of its letters. It serves to show that a mechanical step
  that fires never gives back a text that an earlier content had.
\<close>

definition at_weight :: "char \<Rightarrow> int" where
  "at_weight c = (if c = CHR ''@'' then 1 else 0)"

definition phi :: "char \<Rightarrow> int" where
  "phi c = (if c = CHR ''f'' then 1 else if c = CHR ''M'' then 3
            else if c \<in> set ''2SOKgcz'' then - 1 else 0)"

definition potential :: "string \<Rightarrow> int \<times> int" where
  "potential s = (wsum at_weight s, wsum phi s)"

definition rising :: "rule \<Rightarrow> bool" where
  "rising r = (\<forall>c. is_mechanical r \<and> fires r c \<longrightarrow> potential c < potential (after r c))"

text \<open>All the steps of a run, each with the content it saw.\<close>

fun steps :: "rule list \<Rightarrow> string \<Rightarrow> (rule \<times> string) list" where
  "steps [] c = []"
| "steps (r # rs) c = (r, c) # steps rs (after r c)"


text \<open>
  A matcher that never backtracks: every repetition takes the longest run. When it
  succeeds, its result is the first match of \<open>rm\<close>; it serves to compute the match on a
  text that is given in pieces.
\<close>

fun dm :: "regex \<Rightarrow> char option \<Rightarrow> string \<Rightarrow> caps \<Rightarrow> (string \<times> caps) option" where
  "dm (Lit w) p s g = (if take (length w) s = w then Some (w, g) else None)"
| "dm (Star c) p s g = Some (takeWhile c s, g)"
| "dm (Plus c) p s g = (if takeWhile c s = [] then None else Some (takeWhile c s, g))"
| "dm WordB p s g = (if at_boundary p s then Some ([], g) else None)"
| "dm (Group i r) p s g =
     (case dm r p s g of None \<Rightarrow> None | Some mg \<Rightarrow> Some (fst mg, (i, fst mg) # snd mg))"
| "dm (Opt r) p s g =
     (case dm r p s g of
        Some mg \<Rightarrow> Some mg
      | None \<Rightarrow> if rm r p s g = [] then Some ([], g) else None)"
| "dm (Seq a b) p s g =
     (case dm a p s g of
        None \<Rightarrow> None
      | Some mg \<Rightarrow>
          (case dm b (lastc p (fst mg)) (drop (length (fst mg)) s) (snd mg) of
             None \<Rightarrow> None
           | Some mg2 \<Rightarrow> Some (fst mg @ fst mg2, snd mg2)))"

text \<open>The weight that counts the opening parentheses of a text.\<close>

definition lp :: "char \<Rightarrow> int" where
  "lp c = (if c = CHR ''('' then 1 else 0)"




section \<open>The run of the catalog never fails\<close>

lemma apply_rule_safe:
  "safe r \<Longrightarrow> apply_rule r (c, ch) =
     Inr (after r c, ch @ (if fires r c then [description r c] else []))"
proof (cases r)
  case (Mechanical cond act descr)
  assume "safe r"
  with Mechanical obtain c' where "act c = Inr c'" by auto
  with Mechanical show ?thesis by simp
next
  case (Advisory cond msg)
  then show ?thesis by simp
qed

lemma run_rules_trace:
  "list_all safe rs \<Longrightarrow>
   run_rules rs (c, ch) = Inr (final rs c, ch @ map (\<lambda>(r, x). description r x) (firings rs c))"
proof (induction rs arbitrary: c ch)
  case Nil
  then show ?case by simp
next
  case (Cons r rs)
  then show ?case by (simp add: apply_rule_safe)
qed

lemma safe_literal: "safe (literal_rule old new msg)"
  by (simp add: literal_rule_def)

lemma safe_pattern: "list_all (piece_ok r) t \<Longrightarrow> safe (pattern_rule r t msg)"
  by (simp add: pattern_rule_def re_sub_def)

lemma safe_node_rename: "safe (node_rename_rule old new)"
  by (simp add: node_rename_rule_def re_sub_def)

lemma safe_export: "safe export_rule"
  by (simp add: export_rule_def re_sub_def pat_export_def)

lemma catalog_safe: "list_all safe catalog"
  by (simp add: catalog_def node_renames_def safe_literal safe_pattern safe_node_rename safe_export
      pat_instance_def pat_randomize_def)

lemma migrate_file_eq:
  "migrate_file s =
     Inr (if final catalog s \<noteq> s then Some (final catalog s) else None,
          map (\<lambda>(r, x). description r x) (firings catalog s))"
  by (simp add: migrate_file_def run_rules_trace [OF catalog_safe])

text \<open>
  C9. For every input text \<open>migrate_file\<close> returns a pair of a content and a list of
  changes: no step raises. The only error a step could raise is the one of \<open>re.sub\<close> for a
  template that refers to a group its pattern does not have, and no template of the
  catalog does.
\<close>

theorem migrate_file_total: "\<exists>new_content changes. migrate_file s = Inr (new_content, changes)"
  by (simp add: migrate_file_eq)

theorem migrate_file_total_witness:
  "\<exists>new_content changes. migrate_file ''x = (1 + '' = Inr (new_content, changes)"
  by (rule migrate_file_total)

section \<open>Running the tool twice\<close>

text \<open>
  C1. Applying the transformation of \<open>migrate_file\<close> twice does not give the content of
  applying it once: the replacement of the rule for BUTTON\_LEFT contains BUTTON\_LEFT,
  so the second run renames the constant again.
\<close>

theorem button_left_renamed_twice:
  "content_after ''BUTTON_LEFT'' = Inr ''MOUSE_BUTTON_LEFT''
   \<and> content_after ''MOUSE_BUTTON_LEFT'' = Inr ''MOUSE_MOUSE_BUTTON_LEFT''"
  by code_simp

section \<open>The removal of randomize()\<close>

text \<open>
  C5. On a text whose second line holds only a call of randomize(), the step removes the
  line together with the newline that ends the line before it: the white space that
  the pattern allows before the call includes newlines. The lines around the call are
  joined.
\<close>

theorem randomize_removal_joins_lines:
  \<open>content_after ''a\<newline>randomize()\<newline>b\<newline>'' = Inr ''ab\<newline>''\<close>
  by code_simp

section \<open>The counter of mechanical changes\<close>


lemma count_changes_filter:
  "count_changes chs n = n + length (filter (\<lambda>ch. \<not> startswith ch warn) chs)"
  by (induction chs arbitrary: n) auto

lemma firings_in: "(r, x) \<in> set (firings rs c) \<Longrightarrow> r \<in> set rs \<and> fires r x"
  by (induction rs arbitrary: c) (auto split: if_splits)


lemma marked_literal: "\<not> startswith msg warn \<Longrightarrow> marked (literal_rule old new msg)"
  by (simp add: marked_def literal_rule_def)

lemma marked_pattern: "\<not> startswith msg warn \<Longrightarrow> marked (pattern_rule r t msg)"
  by (simp add: marked_def pattern_rule_def)

lemma marked_advisory: "startswith msg warn \<Longrightarrow> marked (Advisory cond msg)"
  by (simp add: marked_def)

lemma marked_export: "marked export_rule"
  by (simp add: marked_def export_rule_def startswith_def warn_def u_def)

lemma startswith_warn [simp]: "startswith (warn @ x) warn"
  by (simp add: startswith_def)

lemma of_char_int_less: "(of_char c :: int) < 256"
proof -
  have "(of_char c :: int) = int (of_char c)" by (simp add: of_nat_of_char)
  then show ?thesis by simp
qed

lemma not_startswith_u [simp]: "\<not> startswith (u (c # cs) @ x) warn"
  using of_char_int_less [of c] by (simp add: startswith_def warn_def u_def)

lemma marked_node: "old \<noteq> [] \<Longrightarrow> marked (node_rename_rule old new)"
  by (cases old) (simp_all add: marked_def node_rename_rule_def)

lemma not_startswith_u' [simp]: "\<not> startswith (u (c # cs)) warn"
  using not_startswith_u [of c cs "[]"] by simp

lemma catalog_marked: "list_all marked catalog"
  by (simp add: catalog_def node_renames_def marked_literal marked_pattern marked_advisory
      marked_export marked_node)

lemma count_changes_firings:
  assumes "list_all marked rs"
  shows "count_changes (map (\<lambda>(r, x). description r x) (firings rs c)) n
         = n + length (filter (\<lambda>(r, x). is_mechanical r) (firings rs c))"
proof -
  have "\<And>r x. (r, x) \<in> set (firings rs c) \<Longrightarrow>
          (\<not> startswith (description r x) warn) = is_mechanical r"
    using assms firings_in [of _ _ rs c] by (auto simp: list_all_iff marked_def)
  then have "filter (\<lambda>ch. \<not> startswith ch warn) (map (\<lambda>(r, x). description r x) (firings rs c))
        = map (\<lambda>(r, x). description r x) (filter (\<lambda>(r, x). is_mechanical r) (firings rs c))"
    by (auto simp: filter_map comp_def intro!: arg_cong [where f = "map _"] filter_cong)
  then show ?thesis by (simp add: count_changes_filter)
qed

text \<open>
  C3 (as amended). Processing a file raises the counter of mechanical changes by the
  number of mechanical steps that fired on it: one for each, the typed-export step
  included whatever the number of declarations it rewrote; advisory steps add nothing.
\<close>

theorem total_changes_counts_firings:
  assumes "files st file_path = Some text"
      and "process_file dry_run file_path st = Inr st'"
  shows "total_changes st'
         = total_changes st + length (filter (\<lambda>(r, x). is_mechanical r) (firings catalog text))"
  using assms count_changes_firings [OF catalog_marked, of "text" "total_changes st"]
  by (auto simp: process_file_def migrate_file_eq Let_def split: if_splits)


theorem total_changes_counts_firings_witness:
  \<open>process_file True ()
     \<lparr>files = (\<lambda>p. Some ''export(int) var health\<newline>export(int) var mana\<newline>''),
      written = [], files_changed = 0, total_changes = 0\<rparr>
   = Inr \<lparr>files = (\<lambda>p. Some ''export(int) var health\<newline>export(int) var mana\<newline>''),
          written = [], files_changed = 1, total_changes = 1\<rparr>
   \<and> (1::nat) = 0 + length (filter (\<lambda>(r, x). is_mechanical r)
                     (firings catalog ''export(int) var health\<newline>export(int) var mana\<newline>''))\<close>
proof -
  let ?T = \<open>''export(int) var health\<newline>export(int) var mana\<newline>''\<close>
  let ?st = "\<lparr>files = (\<lambda>p::unit. Some ?T), written = [], files_changed = 0, total_changes = 0\<rparr>"
  let ?st' = "\<lparr>files = (\<lambda>p::unit. Some ?T), written = [], files_changed = 1, total_changes = 1\<rparr>"
  have m: \<open>migrate_file ?T = Inr (Some ''@export var health\<newline>@export var mana\<newline>'',
             [u ''export(Type) '' @ arrow @ u '' @export (2 occurrences)''])\<close>
    by code_simp
  have p: "process_file True () ?st = Inr ?st'"
    by (simp add: process_file_def m)
  have f: "files ?st () = Some ?T" by simp
  show ?thesis
    using p total_changes_counts_firings [OF f p] by simp
qed

text \<open>
  The claim C3 as stated fails on a file with two typed exports: the typed-export step
  rewrites two declarations, and the counter rises by one.
\<close>

theorem two_typed_exports_counted_once:
  \<open>findall_count pat_export ''export(int) var health\<newline>export(int) var mana\<newline>'' = 2
   \<and> migrate_file ''export(int) var health\<newline>export(int) var mana\<newline>''
       = Inr (Some ''@export var health\<newline>@export var mana\<newline>'',
              [u ''export(Type) '' @ arrow @ u '' @export (2 occurrences)''])
   \<and> count_changes [u ''export(Type) '' @ arrow @ u '' @export (2 occurrences)''] 0 = 1\<close>
  by code_simp

section \<open>Advisory steps\<close>


lemma after_unfired: "\<not> fires r c \<Longrightarrow> after r c = c"
  by (cases r) auto

lemma after_advisory: "\<not> is_mechanical r \<Longrightarrow> after r c = c"
  by (cases r) auto

lemma quiet_run:
  "list_all (\<lambda>r. is_mechanical r \<longrightarrow> \<not> fires r c) rs \<Longrightarrow>
   final rs c = c \<and> firings rs c = map (\<lambda>r. (r, c)) (filter (\<lambda>r. \<not> is_mechanical r \<and> fires r c) rs)"
proof (induction rs)
  case Nil
  then show ?case by simp
next
  case (Cons r rs)
  then have "after r c = c"
    by (cases "is_mechanical r") (auto simp: after_unfired after_advisory)
  with Cons show ?case by auto
qed

text \<open>
  C6. On a text on which no mechanical step's condition holds, \<open>migrate_file\<close> returns
  None as content and exactly one description for each advisory step whose condition
  holds, in catalog order; and \<open>process_file\<close>, in apply mode, writes nothing: the file
  system, the list of written paths and the count of changed files stay as they were.
\<close>

theorem advisory_only_no_write:
  assumes "files st file_path = Some text"
      and "list_all (\<lambda>r. is_mechanical r \<longrightarrow> \<not> fires r text) catalog"
  shows "migrate_file text
           = Inr (None, map (\<lambda>r. description r text)
                            (filter (\<lambda>r. \<not> is_mechanical r \<and> fires r text) catalog))
         \<and> (\<exists>st'. process_file False file_path st = Inr st'
                  \<and> files st' = files st \<and> written st' = written st
                  \<and> files_changed st' = files_changed st)"
proof -
  from quiet_run [OF assms(2)]
  have m: "migrate_file text
           = Inr (None, map (\<lambda>r. description r text)
                            (filter (\<lambda>r. \<not> is_mechanical r \<and> fires r text) catalog))"
    by (simp add: migrate_file_eq comp_def)
  show ?thesis
    by (simp add: m process_file_def assms(1) Let_def)
qed

theorem advisory_only_no_write_witness:
  \<open>migrate_file ''yield(get_tree(), "idle_frame")''
     = Inr (None, [warn @ u ''  MANUAL: yield() '' @ arrow @ u '' await (syntax change required)''])
   \<and> (\<exists>st'. process_file False ()
              \<lparr>files = (\<lambda>p. Some ''yield(get_tree(), "idle_frame")''), written = [],
               files_changed = 0, total_changes = 0\<rparr> = Inr st'
           \<and> files st' = (\<lambda>p. Some ''yield(get_tree(), "idle_frame")'') \<and> written st' = []
           \<and> files_changed st' = 0)\<close>
proof -
  let ?T = \<open>''yield(get_tree(), "idle_frame")''\<close>
  let ?st = "\<lparr>files = (\<lambda>p::unit. Some ?T), written = [], files_changed = 0, total_changes = 0\<rparr>"
  have q: "list_all (\<lambda>r. is_mechanical r \<longrightarrow> \<not> fires r ?T) catalog"
    by code_simp
  have f: "files ?st () = Some ?T" by simp
  have d: \<open>map (\<lambda>r. description r ?T) (filter (\<lambda>r. \<not> is_mechanical r \<and> fires r ?T) catalog)
        = [warn @ u ''  MANUAL: yield() '' @ arrow @ u '' await (syntax change required)'']\<close>
    by code_simp
  show ?thesis
    using advisory_only_no_write [OF f q] by (simp add: d)
qed


section \<open>Matches and the scanner\<close>

lemma wsum_simps [simp]:
  "wsum w [] = 0" "wsum w (c # cs) = w c + wsum w cs" "wsum w (xs @ ys) = wsum w xs + wsum w ys"
  by (simp_all add: wsum_def)

subsection \<open>What a match looks like\<close>

lemma rm_Lit_E: "(m, g') \<in> set (rm (Lit w) p s g) \<Longrightarrow> m = w \<and> g' = g \<and> take (length w) s = w"
  by (auto split: if_splits)

lemma take_takeWhile: "k \<le> length (takeWhile c s) \<Longrightarrow> take k s = take k (takeWhile c s)"
proof (induction s arbitrary: k)
  case Nil
  then show ?case by simp
next
  case (Cons x xs)
  then show ?case by (cases k) (auto split: if_splits)
qed

lemma take_takeWhile_all: "k \<le> length (takeWhile c s) \<Longrightarrow> list_all c (take k s)"
proof -
  assume "k \<le> length (takeWhile c s)"
  then have "take k s = take k (takeWhile c s)" by (rule take_takeWhile)
  moreover have "list_all c (takeWhile c s)" by (simp add: list_all_iff) (meson set_takeWhileD)
  ultimately show ?thesis
    using in_set_takeD [of _ k "takeWhile c s"] by (simp add: list_all_iff)
qed

lemma set_rm_Star:
  "set (rm (Star c) p s g) = (\<lambda>k. (take k s, g)) ` {k. k \<le> length (takeWhile c s)}"
  unfolding rm.simps set_map set_rev set_upt by (auto simp: less_Suc_eq_le)

lemma set_rm_Plus:
  "set (rm (Plus c) p s g) = (\<lambda>k. (take k s, g)) ` {k. 1 \<le> k \<and> k \<le> length (takeWhile c s)}"
  unfolding rm.simps set_map set_rev set_upt by (auto simp: less_Suc_eq_le)

lemma rm_Star_E:
  "(m, g') \<in> set (rm (Star c) p s g) \<Longrightarrow> list_all c m \<and> g' = g \<and> take (length m) s = m"
proof -
  assume "(m, g') \<in> set (rm (Star c) p s g)"
  then obtain k where k: "k \<le> length (takeWhile c s)" "m = take k s" "g' = g"
    unfolding set_rm_Star by blast
  from take_takeWhile_all [OF k(1)] k show ?thesis by (simp add: min_def)
qed

lemma rm_Plus_E:
  "(m, g') \<in> set (rm (Plus c) p s g) \<Longrightarrow>
     list_all c m \<and> m \<noteq> [] \<and> g' = g \<and> take (length m) s = m"
proof -
  assume "(m, g') \<in> set (rm (Plus c) p s g)"
  then obtain k where k: "1 \<le> k" "k \<le> length (takeWhile c s)" "m = take k s" "g' = g"
    unfolding set_rm_Plus by blast
  have "length (takeWhile c s) \<le> length s" by (rule length_takeWhile_le)
  with k have "m \<noteq> []" by (cases s) auto
  with take_takeWhile_all [OF k(2)] k show ?thesis by (simp add: min_def)
qed

lemma rm_WordB_E: "(m, g') \<in> set (rm WordB p s g) \<Longrightarrow> m = [] \<and> g' = g \<and> at_boundary p s"
  by (auto split: if_splits)

lemma rm_Group_E:
  "(m, g') \<in> set (rm (Group i r) p s g) \<Longrightarrow> \<exists>g1. (m, g1) \<in> set (rm r p s g) \<and> g' = (i, m) # g1"
  by auto

lemma rm_Opt_E:
  "(m, g') \<in> set (rm (Opt r) p s g) \<Longrightarrow> (m, g') \<in> set (rm r p s g) \<or> (m = [] \<and> g' = g)"
  by auto

lemma rm_Seq_E:
  "(m, g') \<in> set (rm (Seq a b) p s g) \<Longrightarrow>
     \<exists>m1 g1 m2. (m1, g1) \<in> set (rm a p s g)
        \<and> (m2, g') \<in> set (rm b (lastc p m1) (drop (length m1) s) g1) \<and> m = m1 @ m2"
  by auto blast

lemma rm_prefix: "(m, g') \<in> set (rm r p s g) \<Longrightarrow> take (length m) s = m"
proof (induction r arbitrary: p s g m g')
  case (Lit w)
  from rm_Lit_E [OF Lit] show ?case by simp
next
  case (Star c)
  from rm_Star_E [OF Star] show ?case by simp
next
  case (Plus c)
  from rm_Plus_E [OF Plus] show ?case by simp
next
  case WordB
  from rm_WordB_E [OF WordB] show ?case by simp
next
  case (Group i r)
  from rm_Group_E [OF Group.prems] Group.IH show ?case by blast
next
  case (Opt r)
  from rm_Opt_E [OF Opt.prems] Opt.IH show ?case by auto
next
  case (Seq a b)
  from rm_Seq_E [OF Seq.prems] obtain m1 g1 m2 where
    h: "(m1, g1) \<in> set (rm a p s g)"
       "(m2, g') \<in> set (rm b (lastc p m1) (drop (length m1) s) g1)" "m = m1 @ m2" by blast
  from Seq.IH(1) [OF h(1)] Seq.IH(2) [OF h(2)] h(3)
  show ?case by (simp add: take_add)
qed

lemma rm_hd_prefix: "rm r p s g = mg # t \<Longrightarrow> take (length (fst mg)) s = fst mg"
proof -
  assume "rm r p s g = mg # t"
  then have "(fst mg, snd mg) \<in> set (rm r p s g)" by simp
  then show ?thesis by (rule rm_prefix)
qed

lemma scan_Nil_match: "rm r p [] [] = mg # t \<Longrightarrow> scan r p [] = [Match (fst mg) (snd mg)]"
  by simp

lemma scan_Nil_none: "rm r p [] [] = [] \<Longrightarrow> scan r p [] = []"
  by simp

lemma scan_Cons_none: "rm r p (c # cs) [] = [] \<Longrightarrow> scan r p (c # cs) = Copy c # scan r (Some c) cs"
  by simp

lemma scan_Cons_empty:
  "rm r p (c # cs) [] = mg # t \<Longrightarrow> fst mg = [] \<Longrightarrow>
   scan r p (c # cs) = Match [] (snd mg) # Copy c # scan r (Some c) cs"
  by simp

lemma scan_Cons_match:
  "rm r p (c # cs) [] = mg # t \<Longrightarrow> fst mg \<noteq> [] \<Longrightarrow>
   scan r p (c # cs) = Match (fst mg) (snd mg)
      # scan r (lastc p (fst mg)) (drop (length (fst mg)) (c # cs))"
  by simp

lemma seg_src_simps [simp]: "seg_src (Copy c) = [c]" "seg_src (Match m g) = m"
  by (simp_all add: seg_src_def)

lemma is_match_simps [simp]: "is_match (Copy c) = False" "is_match (Match m g) = True"
  by (simp_all add: is_match_def)

lemma scan_src: "concat (map seg_src (scan r p s)) = s"
proof (induction r p s rule: scan.induct)
  case (1 r p)
  show ?case
  proof (cases "rm r p [] []")
    case Nil
    then show ?thesis by (simp only: scan_Nil_none) simp
  next
    case (Cons mg t)
    from rm_hd_prefix [OF this] show ?thesis by (simp only: scan_Nil_match [OF Cons]) simp
  qed
next
  case (2 r p c cs)
  show ?case
  proof (cases "rm r p (c # cs) []")
    case Nil
    with 2(1) show ?thesis by (simp only: scan_Cons_none [OF Nil]) simp
  next
    case (Cons mg t)
    from rm_hd_prefix [OF this] have pre: "take (length (fst mg)) (c # cs) = fst mg" .
    show ?thesis
    proof (cases "fst mg = []")
      case True
      from 2(2) [OF Cons True] show ?thesis
        by (simp only: scan_Cons_empty [OF Cons True]) simp
    next
      case False
      have "fst mg @ drop (length (fst mg)) (c # cs) = c # cs"
        using pre append_take_drop_id [of "length (fst mg)" "c # cs"] by simp
      with 2(3) [OF Cons False] show ?thesis
        by (simp only: scan_Cons_match [OF Cons False]) simp
    qed
  qed
qed

lemma scan_matches:
  "Match m g \<in> set (scan r p s) \<Longrightarrow> \<exists>p' s'. (m, g) \<in> set (rm r p' s' [])"
proof (induction r p s rule: scan.induct)
  case (1 r p)
  show ?case
  proof (cases "rm r p [] []")
    case Nil
    with 1 show ?thesis by (simp only: scan_Nil_none) simp
  next
    case (Cons mg t)
    then have "(fst mg, snd mg) \<in> set (rm r p [] [])" by simp
    moreover from 1 have "m = fst mg \<and> g = snd mg" by (simp only: scan_Nil_match [OF Cons]) simp
    ultimately show ?thesis by blast
  qed
next
  case (2 r p c cs)
  show ?case
  proof (cases "rm r p (c # cs) []")
    case Nil
    from 2(4) have "Match m g \<in> set (scan r (Some c) cs)"
      by (simp only: scan_Cons_none [OF Nil]) simp
    with 2(1) [OF Nil] show ?thesis .
  next
    case (Cons mg t)
    then have here: "(fst mg, snd mg) \<in> set (rm r p (c # cs) [])" by simp
    show ?thesis
    proof (cases "fst mg = []")
      case True
      from 2(4) have "(m = [] \<and> g = snd mg) \<or> Match m g \<in> set (scan r (Some c) cs)"
        by (simp only: scan_Cons_empty [OF Cons True]) simp
      with 2(2) [OF Cons True] here True show ?thesis by metis
    next
      case False
      from 2(4) have "(m = fst mg \<and> g = snd mg)
          \<or> Match m g \<in> set (scan r (lastc p (fst mg)) (drop (length (fst mg)) (c # cs)))"
        by (simp only: scan_Cons_match [OF Cons False]) simp
      with 2(3) [OF Cons False] here show ?thesis by metis
    qed
  qed
qed

lemma search_scan: "search_from r p s \<longleftrightarrow> filter is_match (scan r p s) \<noteq> []"
proof (induction r p s rule: scan.induct)
  case (1 r p)
  show ?case
  proof (cases "rm r p [] []")
    case Nil
    then show ?thesis by (simp only: scan_Nil_none) simp
  next
    case (Cons mg t)
    then show ?thesis by (simp only: scan_Nil_match [OF Cons]) simp
  qed
next
  case (2 r p c cs)
  show ?case
  proof (cases "rm r p (c # cs) []")
    case Nil
    with 2(1) [OF Nil] show ?thesis by (simp only: scan_Cons_none [OF Nil]) simp
  next
    case (Cons mg t)
    show ?thesis
    proof (cases "fst mg = []")
      case True
      with Cons show ?thesis by (simp only: scan_Cons_empty [OF Cons True]) simp
    next
      case False
      with Cons show ?thesis by (simp only: scan_Cons_match [OF Cons False]) simp
    qed
  qed
qed

lemma wsum_segs_eq:
  assumes "\<And>m g. Match m g \<in> set segs \<Longrightarrow> wsum w (f m g) = wsum w m + d"
  shows "wsum w (concat (map (seg_text f) segs))
         = wsum w (concat (map seg_src segs)) + d * int (length (filter is_match segs))"
  using assms
proof (induction segs)
  case Nil
  then show ?case by simp
next
  case (Cons x segs)
  then have ih: "wsum w (concat (map (seg_text f) segs))
         = wsum w (concat (map seg_src segs)) + d * int (length (filter is_match segs))" by simp
  show ?case
  proof (cases x)
    case (Copy c)
    with ih show ?thesis by simp
  next
    case (Match m g)
    with Cons.prems [of m g] have "wsum w (f m g) = wsum w m + d" by simp
    with ih Match show ?thesis by (simp add: algebra_simps)
  qed
qed

lemma wsum_segs_ge:
  assumes "\<And>m g. Match m g \<in> set segs \<Longrightarrow> wsum w (f m g) \<ge> wsum w m + d"
  shows "wsum w (concat (map (seg_text f) segs))
         \<ge> wsum w (concat (map seg_src segs)) + d * int (length (filter is_match segs))"
  using assms
proof (induction segs)
  case Nil
  then show ?case by simp
next
  case (Cons x segs)
  then have ih: "wsum w (concat (map (seg_text f) segs))
         \<ge> wsum w (concat (map seg_src segs)) + d * int (length (filter is_match segs))" by simp
  show ?case
  proof (cases x)
    case (Copy c)
    with ih show ?thesis by simp
  next
    case (Match m g)
    with Cons.prems [of m g] have "wsum w (f m g) \<ge> wsum w m + d" by simp
    with ih Match show ?thesis by (simp add: algebra_simps)
  qed
qed

lemma unmatched_unchanged:
  "filter is_match segs = [] \<Longrightarrow> concat (map (seg_text f) segs) = concat (map seg_src segs)"
proof (induction segs)
  case Nil
  then show ?case by simp
next
  case (Cons x segs)
  then show ?case by (cases x) (auto split: if_splits)
qed

subsection \<open>str.replace and in, as scans for a literal\<close>

lemma replace_scan:
  "old \<noteq> [] \<Longrightarrow> replace old new s = concat (map (seg_text (\<lambda>m g. new)) (scan (Lit old) p s))"
proof (induction old new s arbitrary: p rule: replace.induct)
  case (1 old new)
  then show ?case by auto
next
  case (2 old new c cs)
  show ?case
  proof (cases "take (length old) (c # cs) = old")
    case True
    then have rm: "rm (Lit old) p (c # cs) [] = (old, []) # []" by simp
    have ne: "fst (old, [] :: caps) \<noteq> []" using 2(4) by simp
    from 2(2) [OF 2(4) True 2(4)] True 2(4) show ?thesis
      by (simp only: scan_Cons_match [OF rm ne] replace.simps) simp
  next
    case False
    then have rm: "rm (Lit old) p (c # cs) [] = []" by simp
    from 2(3) [OF 2(4) False 2(4)] False 2(4) show ?thesis
      by (simp only: scan_Cons_none [OF rm] replace.simps) simp
  qed
qed

lemma is_in_search: "is_in old s \<longleftrightarrow> search_from (Lit old) p s"
  by (induction s arbitrary: p) auto

section \<open>A mechanical step that fires changes the content for good\<close>

lemma word_no_at: "is_word c \<Longrightarrow> at_weight c = 0"
proof -
  assume w: "is_word c"
  have "\<not> is_word CHR ''@''" by (simp add: is_word_def in_range_def)
  with w have "c \<noteq> CHR ''@''" by auto
  then show ?thesis by (simp add: at_weight_def)
qed

lemma space_no_at: "is_space c \<Longrightarrow> at_weight c = 0"
proof -
  assume w: "is_space c"
  have "\<not> is_space CHR ''@''" by (simp add: is_space_def in_range_def)
  with w have "c \<noteq> CHR ''@''" by auto
  then show ?thesis by (simp add: at_weight_def)
qed

lemma space_no_phi: "is_space c \<Longrightarrow> phi c = 0"
proof -
  assume w: "is_space c"
  have "list_all (\<lambda>x. \<not> is_space x) ''fM2SOKgcz''" by (simp add: is_space_def in_range_def)
  with w have "c \<notin> set ''fM2SOKgcz''" by (auto simp only: list_all_iff)
  then show ?thesis by (simp add: phi_def)
qed

lemma wsum_zero: "list_all (\<lambda>c. w c = 0) s \<Longrightarrow> wsum w s = 0"
  by (induction s) auto

lemma words_no_at: "list_all is_word s \<Longrightarrow> wsum at_weight s = 0"
  by (rule wsum_zero) (simp add: list_all_iff word_no_at)

lemma spaces_no_at: "list_all is_space s \<Longrightarrow> wsum at_weight s = 0"
  by (rule wsum_zero) (simp add: list_all_iff space_no_at)

lemma spaces_no_phi: "list_all is_space s \<Longrightarrow> wsum phi s = 0"
  by (rule wsum_zero) (simp add: list_all_iff space_no_phi)

lemma rm_Lit_S: "(m, g') \<in> set (rm (Lit w) p s g) \<Longrightarrow> m = w \<and> g' = g"
  using rm_Lit_E by blast

lemma rm_Star_S: "(m, g') \<in> set (rm (Star c) p s g) \<Longrightarrow> list_all c m \<and> g' = g"
  using rm_Star_E by blast

lemma rm_Plus_S: "(m, g') \<in> set (rm (Plus c) p s g) \<Longrightarrow> list_all c m \<and> m \<noteq> [] \<and> g' = g"
  using rm_Plus_E by blast

lemma rm_WordB_S: "(m, g') \<in> set (rm WordB p s g) \<Longrightarrow> m = [] \<and> g' = g"
  using rm_WordB_E by blast

lemmas shape = rm_Seq_E rm_Group_E rm_Lit_S rm_Star_S rm_Plus_S rm_WordB_S

text \<open>
  No pattern that the two scripts hand to \<open>re.sub\<close>, \<open>re.subn\<close> or \<open>re.findall\<close>
  matches the empty text, so the scanner never takes its branch for an empty match.
\<close>

lemma patterns_consume:
  "(m, g) \<in> set (rm pat_instance p s []) \<Longrightarrow> m \<noteq> []"
  "(m, g) \<in> set (rm pat_randomize p s []) \<Longrightarrow> m \<noteq> []"
  "(m, g) \<in> set (rm pat_export p s []) \<Longrightarrow> m \<noteq> []"
  "old \<noteq> [] \<Longrightarrow> (m, g) \<in> set (rm (pat_whole_word old) p s []) \<Longrightarrow> m \<noteq> []"
  "(m, g) \<in> set (rm connect_pattern p s []) \<Longrightarrow> m \<noteq> []"
  by (auto simp del: rm.simps
      simp add: pat_instance_def pat_randomize_def pat_export_def pat_whole_word_def
        connect_pattern_def
      dest!: shape)

lemma instance_delta:
  assumes "(m, g) \<in> set (rm pat_instance p s [])"
  shows "wsum at_weight (expand [TGroup 1, TLit ''.instantiate(''] g) = wsum at_weight m + 0"
    and "wsum phi (expand [TGroup 1, TLit ''.instantiate(''] g) = wsum phi m + 1"
  using assms
  by (auto simp del: rm.simps simp add: pat_instance_def expand_def group_text_def
      at_weight_def phi_def dest!: shape)

lemma randomize_delta:
  assumes "(m, g) \<in> set (rm pat_randomize p s [])"
  shows "wsum at_weight (expand [] g) = wsum at_weight m + 0"
    and "wsum phi (expand [] g) = wsum phi m + 1"
  using assms
  by (auto simp del: rm.simps simp add: pat_randomize_def expand_def spaces_no_at spaces_no_phi
      dest!: shape, simp_all add: at_weight_def phi_def)

lemma export_delta:
  assumes "(m, g) \<in> set (rm pat_export p s [])"
  shows "wsum at_weight (expand [TLit ''@export var '', TGroup 2] g) = wsum at_weight m + 1"
  using assms
  by (auto simp del: rm.simps simp add: pat_export_def expand_def group_text_def
      spaces_no_at words_no_at dest!: shape, simp_all add: at_weight_def)

lemma whole_word_delta:
  assumes "(m, g) \<in> set (rm (pat_whole_word old) p s [])"
  shows "expand [TLit new] g = new" and "m = old"
  using assms
  by (auto simp del: rm.simps simp add: pat_whole_word_def expand_def dest!: shape)

lemma less_potential:
  "potential a < potential b \<longleftrightarrow>
     wsum at_weight a < wsum at_weight b
     \<or> (wsum at_weight a \<le> wsum at_weight b \<and> wsum phi a < wsum phi b)"
  by (simp add: potential_def less_prod_def)

lemma rise_phi:
  assumes d: "\<And>m g p s. (m, g) \<in> set (rm r p s []) \<Longrightarrow>
                wsum at_weight (f m g) = wsum at_weight m + 0 \<and> wsum phi (f m g) = wsum phi m + 1"
      and n: "filter is_match (scan r None c) \<noteq> []"
  shows "potential c < potential (concat (map (seg_text f) (scan r None c)))"
proof -
  let ?segs = "scan r None c"
  have a: "wsum at_weight (concat (map (seg_text f) ?segs))
           = wsum at_weight (concat (map seg_src ?segs)) + 0 * int (length (filter is_match ?segs))"
    by (rule wsum_segs_eq) (use d scan_matches in blast)
  have b: "wsum phi (concat (map (seg_text f) ?segs))
           = wsum phi (concat (map seg_src ?segs)) + 1 * int (length (filter is_match ?segs))"
    by (rule wsum_segs_eq) (use d scan_matches in blast)
  from n have "0 < length (filter is_match ?segs)" by simp
  with a b show ?thesis by (simp add: less_potential scan_src)
qed

lemma rise_at:
  assumes d: "\<And>m g p s. (m, g) \<in> set (rm r p s []) \<Longrightarrow>
                wsum at_weight (f m g) = wsum at_weight m + 1"
      and n: "filter is_match (scan r None c) \<noteq> []"
  shows "potential c < potential (concat (map (seg_text f) (scan r None c)))"
proof -
  let ?segs = "scan r None c"
  have a: "wsum at_weight (concat (map (seg_text f) ?segs))
           = wsum at_weight (concat (map seg_src ?segs)) + 1 * int (length (filter is_match ?segs))"
    by (rule wsum_segs_eq) (use d scan_matches in blast)
  from n have "0 < length (filter is_match ?segs)" by simp
  with a show ?thesis by (simp add: less_potential scan_src)
qed

lemma is_in_scan: "is_in old c \<longleftrightarrow> filter is_match (scan (Lit old) None c) \<noteq> []"
  using is_in_search [of old c None] search_scan [of "Lit old" None c] by simp

lemma rising_literal:
  assumes "old \<noteq> []" "wsum at_weight new = wsum at_weight old + 0"
    "wsum phi new = wsum phi old + 1"
  shows "rising (literal_rule old new msg)"
proof -
  have "potential c < potential (replace old new c)" if "is_in old c" for c
    unfolding replace_scan [OF assms(1), of new c None]
    by (rule rise_phi) (use assms that in \<open>auto simp: is_in_scan dest!: rm_Lit_S\<close>)
  then show ?thesis by (simp add: rising_def literal_rule_def)
qed

lemma rising_literal_at:
  assumes "old \<noteq> []" "wsum at_weight new = wsum at_weight old + 1"
  shows "rising (literal_rule old new msg)"
proof -
  have "potential c < potential (replace old new c)" if "is_in old c" for c
    unfolding replace_scan [OF assms(1), of new c None]
    by (rule rise_at) (use assms that in \<open>auto simp: is_in_scan dest!: rm_Lit_S\<close>)
  then show ?thesis by (simp add: rising_def literal_rule_def)
qed

lemma rising_pattern:
  assumes "list_all (piece_ok r) t"
    and "\<And>m g p s. (m, g) \<in> set (rm r p s []) \<Longrightarrow>
           wsum at_weight (expand t g) = wsum at_weight m + 0
           \<and> wsum phi (expand t g) = wsum phi m + 1"
  shows "rising (pattern_rule r t msg)"
proof -
  have "potential c < potential (concat (map (seg_text (\<lambda>m g. expand t g)) (scan r None c)))"
    if "re_search r c" for c
    by (rule rise_phi) (use assms(2) that in \<open>auto simp: re_search_def search_scan\<close>)
  then show ?thesis using assms(1) by (simp add: rising_def pattern_rule_def re_sub_def)
qed

lemma rising_node_rename:
  assumes "wsum at_weight new = wsum at_weight old + 0" "wsum phi new = wsum phi old + 1"
  shows "rising (node_rename_rule old new)"
proof -
  have d: "wsum at_weight (expand [TLit new] g) = wsum at_weight m + 0
           \<and> wsum phi (expand [TLit new] g) = wsum phi m + 1"
    if h: "(m, g) \<in> set (rm (pat_whole_word old) p s [])" for m g p s
  proof -
    from whole_word_delta [OF h] have "expand [TLit new] g = new" "m = old" by simp_all
    with assms show ?thesis by simp
  qed
  have "potential c
        < potential (concat (map (seg_text (\<lambda>m g. expand [TLit new] g))
                                 (scan (pat_whole_word old) None c)))"
    if "re_search (pat_whole_word old) c" for c
  proof (rule rise_phi)
    show "filter is_match (scan (pat_whole_word old) None c) \<noteq> []"
      using that by (simp add: re_search_def search_scan)
  qed (rule d)
  then show ?thesis by (simp add: rising_def node_rename_rule_def re_sub_def)
qed

lemma rising_export: "rising export_rule"
proof -
  have "potential c
        < potential (concat (map (seg_text (\<lambda>m g. expand [TLit ''@export var '', TGroup 2] g))
                                 (scan pat_export None c)))"
    if "findall_count pat_export c \<noteq> 0" for c
    by (rule rise_at) (use that export_delta in \<open>auto simp: findall_count_def\<close>)
  then show ?thesis by (simp add: rising_def export_rule_def re_sub_def pat_export_def)
qed

lemma rising_advisory: "rising (Advisory cond msg)"
  by (simp add: rising_def)

lemma rising_lit1: "rising (literal_rule ''rand_range('' ''randf_range('' msg)"
  by (rule rising_literal) (simp_all add: at_weight_def phi_def)

lemma rising_lit2: "rising (literal_rule ''deg2rad('' ''deg_to_rad('' msg)"
  by (rule rising_literal) (simp_all add: at_weight_def phi_def)

lemma rising_lit3: "rising (literal_rule ''rad2deg('' ''rad_to_deg('' msg)"
  by (rule rising_literal) (simp_all add: at_weight_def phi_def)

lemma rising_lit4: "rising (literal_rule ''BUTTON_LEFT'' ''MOUSE_BUTTON_LEFT'' msg)"
  by (rule rising_literal) (simp_all add: at_weight_def phi_def)

lemma rising_lit5: "rising (literal_rule ''BUTTON_RIGHT'' ''MOUSE_BUTTON_RIGHT'' msg)"
  by (rule rising_literal) (simp_all add: at_weight_def phi_def)

lemma rising_lit6: "rising (literal_rule ''BUTTON_MIDDLE'' ''MOUSE_BUTTON_MIDDLE'' msg)"
  by (rule rising_literal) (simp_all add: at_weight_def phi_def)

lemma rising_lit7: "rising (literal_rule ''export(NodePath)'' ''@export'' msg)"
  by (rule rising_literal_at) (simp_all add: at_weight_def phi_def)

lemma rising_lit8: "rising (literal_rule ''export(PackedScene)'' ''@export'' msg)"
  by (rule rising_literal_at) (simp_all add: at_weight_def phi_def)

lemma rising_lit9: "rising (literal_rule ''get_tree().get_root()'' ''get_tree().root'' msg)"
  by (rule rising_literal) (simp_all add: at_weight_def phi_def)

lemma rising_lit10: "rising (literal_rule ''OS.get_screen_size('' ''DisplayServer.screen_get_size('' msg)"
  by (rule rising_literal) (simp_all add: at_weight_def phi_def)

lemma rising_lit11: "rising (literal_rule ''var2str('' ''var_to_str('' msg)"
  by (rule rising_literal) (simp_all add: at_weight_def phi_def)

lemma rising_lit12: "rising (literal_rule ''str2var('' ''str_to_var('' msg)"
  by (rule rising_literal) (simp_all add: at_weight_def phi_def)

lemma rising_node1: "rising (node_rename_rule ''KinematicBody2D'' ''CharacterBody2D'')"
  by (rule rising_node_rename) (simp_all add: at_weight_def phi_def)

lemma rising_node2: "rising (node_rename_rule ''KinematicBody'' ''CharacterBody3D'')"
  by (rule rising_node_rename) (simp_all add: at_weight_def phi_def)

lemma rising_node3: "rising (node_rename_rule ''Spatial'' ''Node3D'')"
  by (rule rising_node_rename) (simp_all add: at_weight_def phi_def)

lemma rising_instance: "rising (pattern_rule pat_instance [TGroup 1, TLit ''.instantiate(''] msg)"
proof (rule rising_pattern)
  show "list_all (piece_ok pat_instance) [TGroup 1, TLit ''.instantiate('']"
    by (simp add: pat_instance_def)
qed (use instance_delta in blast)

lemma rising_randomize: "rising (pattern_rule pat_randomize [] msg)"
proof (rule rising_pattern)
  show "list_all (piece_ok pat_randomize) []" by simp
qed (use randomize_delta in blast)

lemma catalog_rising: "list_all rising catalog"
  by (simp add: catalog_def node_renames_def rising_advisory rising_export
      rising_instance [unfolded One_nat_def] rising_randomize rising_lit1 rising_lit2 rising_lit3 rising_lit4 rising_lit5 rising_lit6 rising_lit7 rising_lit8 rising_lit9 rising_lit10 rising_lit11 rising_lit12 rising_node1 rising_node2 rising_node3)

lemma potential_step: "rising r \<Longrightarrow> potential c \<le> potential (after r c)"
proof (cases "is_mechanical r \<and> fires r c")
  case True
  assume "rising r"
  with True have "potential c < potential (after r c)" by (simp add: rising_def)
  then show ?thesis by simp
next
  case False
  then have "after r c = c" using after_unfired after_advisory by blast
  then show ?thesis by simp
qed

lemma potential_final: "list_all rising rs \<Longrightarrow> potential c \<le> potential (final rs c)"
proof (induction rs arbitrary: c)
  case Nil
  then show ?case by simp
next
  case (Cons r rs)
  then have "potential c \<le> potential (after r c)" by (simp add: potential_step)
  also from Cons have "\<dots> \<le> potential (final rs (after r c))" by simp
  finally show ?case by simp
qed

lemma potential_changed:
  "list_all rising rs \<Longrightarrow>
   list_ex (\<lambda>(r, x). is_mechanical r \<and> after r x \<noteq> x) (steps rs c) \<Longrightarrow>
   potential c < potential (final rs c)"
proof (induction rs arbitrary: c)
  case Nil
  then show ?case by simp
next
  case (Cons r rs)
  show ?case
  proof (cases "is_mechanical r \<and> after r c \<noteq> c")
    case True
    then have "fires r c" using after_unfired by blast
    with True Cons.prems(1) have "potential c < potential (after r c)" by (simp add: rising_def)
    also from Cons.prems(1) have "\<dots> \<le> potential (final rs (after r c))"
      by (simp add: potential_final)
    finally show ?thesis by simp
  next
    case False
    with Cons.prems(2) have "list_ex (\<lambda>(r, x). is_mechanical r \<and> after r x \<noteq> x) (steps rs (after r c))"
      by auto
    with Cons have "potential (after r c) < potential (final rs (after r c))" by simp
    moreover from Cons.prems(1) have "potential c \<le> potential (after r c)"
      by (simp add: potential_step)
    ultimately show ?thesis by simp
  qed
qed

lemma unchanged_final:
  "\<not> list_ex (\<lambda>(r, x). is_mechanical r \<and> after r x \<noteq> x) (steps rs c) \<Longrightarrow> final rs c = c"
proof (induction rs arbitrary: c)
  case Nil
  then show ?case by simp
next
  case (Cons r rs)
  then have "after r c = c" using after_advisory [of r c] by auto
  with Cons show ?case by simp
qed

text \<open>
  C4. \<open>migrate_file\<close> returns None as content exactly when no mechanical step changed
  the content it saw, whatever advisory steps fired; otherwise it returns the content
  after all the steps of the catalog, applied in order.
\<close>

theorem migrate_file_content:
  assumes "migrate_file text = Inr (new_content, changes)"
  shows "(new_content = None
           \<longleftrightarrow> \<not> list_ex (\<lambda>(r, x). is_mechanical r \<and> after r x \<noteq> x) (steps catalog text))
         \<and> (new_content \<noteq> None \<longrightarrow> new_content = Some (final catalog text))"
proof (cases "list_ex (\<lambda>(r, x). is_mechanical r \<and> after r x \<noteq> x) (steps catalog text)")
  case True
  from potential_changed [OF catalog_rising True] have "final catalog text \<noteq> text" by auto
  with assms True show ?thesis by (auto simp: migrate_file_eq)
next
  case False
  from unchanged_final [OF False] assms False show ?thesis by (auto simp: migrate_file_eq)
qed

theorem migrate_file_content_witness:
  \<open>list_ex (\<lambda>(r, x). is_mechanical r \<and> after r x \<noteq> x) (steps catalog ''x = a.instance()'')
   \<and> final catalog ''x = a.instance()'' = ''x = a.instantiate()''\<close>
proof -
  have m: \<open>migrate_file ''x = a.instance()''
           = Inr (Some ''x = a.instantiate()'', [u ''instance() '' @ arrow @ u '' instantiate()''])\<close>
    by code_simp
  from migrate_file_content [OF m] show ?thesis by simp
qed

section \<open>Matching a text given in pieces\<close>

lemma take_length_takeWhile: "take (length (takeWhile c s)) s = takeWhile c s"
  by (induction s) auto

lemma dm_sound: "dm r p s g = Some x \<Longrightarrow> \<exists>t. rm r p s g = x # t"
proof (induction r arbitrary: p s g x)
  case (Lit w)
  then show ?case by (auto split: if_splits)
next
  case (Star c)
  have "rev [0..<Suc (length (takeWhile c s))]
        = length (takeWhile c s) # rev [0..<length (takeWhile c s)]" by simp
  with Star show ?case by (auto simp del: upt_Suc simp add: take_length_takeWhile)
next
  case (Plus c)
  then have ne: "takeWhile c s \<noteq> []" and x: "x = (takeWhile c s, g)" by (auto split: if_splits)
  from ne obtain n where n: "length (takeWhile c s) = Suc n" by (cases "takeWhile c s") auto
  have "rev [1..<Suc (length (takeWhile c s))]
        = length (takeWhile c s) # rev [1..<length (takeWhile c s)]" unfolding n by simp
  with x show ?case by (auto simp del: upt_Suc simp add: take_length_takeWhile)
next
  case WordB
  then show ?case by (auto split: if_splits)
next
  case (Group i r)
  from Group.prems obtain mg where mg: "dm r p s g = Some mg" "x = (fst mg, (i, fst mg) # snd mg)"
    by (auto split: option.splits)
  from Group.IH [OF mg(1)] obtain t where "rm r p s g = mg # t" by blast
  with mg(2) show ?case by simp
next
  case (Opt r)
  show ?case
  proof (cases "dm r p s g")
    case None
    with Opt.prems show ?thesis by (auto split: if_splits)
  next
    case (Some mg)
    from Opt.IH [OF Some] obtain t where "rm r p s g = mg # t" by blast
    with Some Opt.prems show ?thesis by simp
  qed
next
  case (Seq a b)
  from Seq.prems obtain mg mg2 where
    a: "dm a p s g = Some mg" and
    b: "dm b (lastc p (fst mg)) (drop (length (fst mg)) s) (snd mg) = Some mg2" and
    x: "x = (fst mg @ fst mg2, snd mg2)"
    by (auto split: option.splits)
  from Seq.IH(1) [OF a] obtain t1 where t1: "rm a p s g = mg # t1" by blast
  from Seq.IH(2) [OF b] obtain t2 where
    t2: "rm b (lastc p (fst mg)) (drop (length (fst mg)) s) (snd mg) = mg2 # t2" by blast
  show ?case by (simp add: t1 t2 x)
qed

lemma scan_dm:
  assumes "dm r p s [] = Some (m, g)" "m \<noteq> []" "s \<noteq> []"
  shows "scan r p s = Match m g # scan r (lastc p m) (drop (length m) s)"
proof -
  from assms(3) obtain c cs where s: "s = c # cs" by (cases s) auto
  from dm_sound [OF assms(1)] obtain t where "rm r p (c # cs) [] = (m, g) # t"
    by (auto simp: s)
  with assms(2) show ?thesis by (simp add: s)
qed

lemma word_not_space: "is_word c \<Longrightarrow> \<not> is_space c"
  by (auto simp: is_word_def is_space_def in_range_def)

section \<open>fix\_connect\_calls: a call without the optional list\<close>

lemma takeWhile_run:
  "list_all c xs \<Longrightarrow> rest = [] \<or> \<not> c (hd rest) \<Longrightarrow> takeWhile c (xs @ rest) = xs"
  by (induction xs) (auto simp: takeWhile_eq_Nil_iff)

lemma connect_call_match:
  assumes sig: "sig \<noteq> []" "list_all not_quote sig"
      and obj: "obj \<noteq> []" "list_all is_word obj"
      and meth: "meth \<noteq> []" "list_all not_quote meth"
      and ws: "list_all is_space ws1" "list_all is_space ws2"
  shows \<open>dm connect_pattern p (''.connect("'' @ sig @ ''",'' @ ws1 @ obj @ '','' @ ws2 @ ''"'' @ meth @ ''")'') []
         = Some (''.connect("'' @ sig @ ''",'' @ ws1 @ obj @ '','' @ ws2 @ ''"'' @ meth @ ''")'',
                 [(3, meth), (2, obj), (1, sig)])\<close>
proof -
  have h: "\<not> is_space (hd obj)" using obj by (cases obj) (auto simp: word_not_space)
  have q: \<open>\<not> not_quote CHR ''"''\<close> \<open>\<not> is_space CHR ''"''\<close> \<open>\<not> is_word CHR '',''\<close>
    \<open>\<not> is_space CHR '')''\<close>
    by (simp_all add: not_quote_def is_space_def is_word_def in_range_def)
  show ?thesis
    using sig obj meth ws h q
    by (simp add: connect_pattern_def takeWhile_run)
qed


lemma scan_connect_end: "scan connect_pattern p [] = []"
  by (simp add: connect_pattern_def)

lemma ngroups_connect: "ngroups connect_pattern = 4"
  by (simp add: connect_pattern_def)

lemma connect_shape_absent:
  assumes "(m, g) \<in> set (rm connect_pattern p s [])" "group_text g 4 = None"
  shows \<open>\<exists>sig ws1 obj ws2 meth.
           m = ''.connect("'' @ sig @ ''",'' @ ws1 @ obj @ '','' @ ws2 @ ''"'' @ meth @ ''")''
         \<and> replacer m g = Inr (''.connect("'' @ sig @ ''", Callable('' @ obj @ '', "'' @ meth @ ''"))'')
         \<and> sig \<noteq> [] \<and> list_all not_quote sig \<and> list_all is_space ws1
         \<and> obj \<noteq> [] \<and> list_all is_word obj \<and> list_all is_space ws2
         \<and> meth \<noteq> [] \<and> list_all not_quote meth\<close>
proof -
  from assms obtain sig ws1 obj ws2 meth where f:
    \<open>m = ''.connect("'' @ sig @ ''",'' @ ws1 @ obj @ '','' @ ws2 @ ''"'' @ meth @ ''")''\<close>
    "g = [(3, meth), (2, obj), (1, sig)]"
    "sig \<noteq> []" "list_all not_quote sig" "list_all is_space ws1"
    "obj \<noteq> []" "list_all is_word obj" "list_all is_space ws2"
    "meth \<noteq> []" "list_all not_quote meth"
    by (auto simp del: rm.simps simp add: connect_pattern_def group_text_def
        dest!: shape rm_Opt_E)
  have r: \<open>replacer m g = Inr (''.connect("'' @ sig @ ''", Callable('' @ obj @ '', "'' @ meth @ ''"))'')\<close>
    unfolding f(2) by (simp add: replacer_def group_def ngroups_connect group_text_def fmt_def)
  from f r show ?thesis by blast
qed

lemma connect_call_alone:
  assumes sig: "sig \<noteq> []" "list_all not_quote sig"
      and obj: "obj \<noteq> []" "list_all is_word obj"
      and meth: "meth \<noteq> []" "list_all not_quote meth"
      and ws: "list_all is_space ws1" "list_all is_space ws2"
  shows \<open>fix_connect_calls (''.connect("'' @ sig @ ''",'' @ ws1 @ obj @ '','' @ ws2 @ ''"'' @ meth @ ''")'')
         = Inr (''.connect("'' @ sig @ ''", Callable('' @ obj @ '', "'' @ meth @ ''"))'', 1)\<close>
proof -
  let ?s = \<open>''.connect("'' @ sig @ ''",'' @ ws1 @ obj @ '','' @ ws2 @ ''"'' @ meth @ ''")''\<close>
  let ?g = "[(3, meth), (2, obj), (1, sig)]"
  have "scan connect_pattern None ?s
        = Match ?s ?g # scan connect_pattern (lastc None ?s) (drop (length ?s) ?s)"
    by (rule scan_dm [OF connect_call_match [OF assms]]) simp_all
  then have sc: "scan connect_pattern None ?s = [Match ?s ?g]"
    by (simp only: drop_all [OF order_refl] scan_connect_end)
  have r: \<open>replacer ?s ?g
           = Inr (''.connect("'' @ sig @ ''", Callable('' @ obj @ '', "'' @ meth @ ''"))'')\<close>
    by (simp add: replacer_def group_def ngroups_connect group_text_def fmt_def)
  have "fix_connect_calls ?s
        = (case concat_err (map (seg_text_err replacer) [Match ?s ?g]) of
             Inl e \<Rightarrow> Inl e
           | Inr w \<Rightarrow> Inr (w, length (filter is_match [Match ?s ?g])))"
    by (simp only: fix_connect_calls_def re_subn_fn_def sc)
  then show ?thesis using r by (simp add: is_match_def)
qed

text \<open>
  C8. For every call \<open>.connect("sig", obj, "method")\<close> without the bracketed list, where
  the signal and the method name are non-empty and hold no double quote, the object is a
  non-empty word, and any white space follows the two commas, \<open>fix_connect_calls\<close>
  returns exactly \<open>.connect("sig", Callable(obj, "method"))\<close> and the count 1: the absent
  group adds nothing, and no error is raised. And in every content, a match in which the
  optional group took no part is such a call, and its replacement is exactly that text.
\<close>

theorem connect_without_params:
  assumes sig: "sig \<noteq> []" "list_all not_quote sig"
      and obj: "obj \<noteq> []" "list_all is_word obj"
      and meth: "meth \<noteq> []" "list_all not_quote meth"
      and ws: "list_all is_space ws1" "list_all is_space ws2"
  shows \<open>fix_connect_calls (''.connect("'' @ sig @ ''",'' @ ws1 @ obj @ '','' @ ws2 @ ''"'' @ meth @ ''")'')
           = Inr (''.connect("'' @ sig @ ''", Callable('' @ obj @ '', "'' @ meth @ ''"))'', 1)
         \<and> (\<forall>content m g.
               Match m g \<in> set (scan connect_pattern None content) \<and> group_text g 4 = None \<longrightarrow>
               (\<exists>s w1 ob w2 me.
                   m = ''.connect("'' @ s @ ''",'' @ w1 @ ob @ '','' @ w2 @ ''"'' @ me @ ''")''
                 \<and> replacer m g = Inr (''.connect("'' @ s @ ''", Callable('' @ ob @ '', "'' @ me @ ''"))'')
                 \<and> s \<noteq> [] \<and> list_all not_quote s \<and> list_all is_space w1
                 \<and> ob \<noteq> [] \<and> list_all is_word ob \<and> list_all is_space w2
                 \<and> me \<noteq> [] \<and> list_all not_quote me))\<close>
proof (intro conjI allI impI)
  show \<open>fix_connect_calls (''.connect("'' @ sig @ ''",'' @ ws1 @ obj @ '','' @ ws2 @ ''"'' @ meth @ ''")'')
        = Inr (''.connect("'' @ sig @ ''", Callable('' @ obj @ '', "'' @ meth @ ''"))'', 1)\<close>
    by (rule connect_call_alone [OF assms])
next
  fix content m g
  assume a: "Match m g \<in> set (scan connect_pattern None content) \<and> group_text g 4 = None"
  then obtain p' s' where "(m, g) \<in> set (rm connect_pattern p' s' [])"
    using scan_matches by blast
  from connect_shape_absent [OF this] a
  show \<open>\<exists>s w1 ob w2 me.
          m = ''.connect("'' @ s @ ''",'' @ w1 @ ob @ '','' @ w2 @ ''"'' @ me @ ''")''
        \<and> replacer m g = Inr (''.connect("'' @ s @ ''", Callable('' @ ob @ '', "'' @ me @ ''"))'')
        \<and> s \<noteq> [] \<and> list_all not_quote s \<and> list_all is_space w1
        \<and> ob \<noteq> [] \<and> list_all is_word ob \<and> list_all is_space w2
        \<and> me \<noteq> [] \<and> list_all not_quote me\<close>
    by simp
qed

theorem connect_without_params_witness:
  \<open>fix_connect_calls ''.connect("pressed", self, "_on_press")''
   = Inr (''.connect("pressed", Callable(self, "_on_press"))'', 1)\<close>
proof -
  have h: "''pressed'' \<noteq> []" "list_all not_quote ''pressed''"
    "''self'' \<noteq> []" "list_all is_word ''self''"
    "''_on_press'' \<noteq> []" "list_all not_quote ''_on_press''"
    "list_all is_space '' ''" "list_all is_space '' ''"
    by (simp_all add: not_quote_def is_word_def is_space_def in_range_def)
  from connect_without_params [OF h] show ?thesis by simp
qed

section \<open>fix\_connect\_calls: the count\<close>

lemma space_no_lp: "is_space c \<Longrightarrow> lp c = 0"
proof -
  assume w: "is_space c"
  have "\<not> is_space CHR ''(''" by (simp add: is_space_def in_range_def)
  with w have "c \<noteq> CHR ''(''" by auto
  then show ?thesis by (simp add: lp_def)
qed

lemma spaces_no_lp: "list_all is_space s \<Longrightarrow> wsum lp s = 0"
  by (rule wsum_zero) (simp add: list_all_iff space_no_lp)

lemma replacer_total: "\<exists>t. replacer m g = Inr t"
  by (simp add: replacer_def group_def ngroups_connect Let_def)

lemma replacer_projr: "replacer m g = Inr (projr (replacer m g))"
  using replacer_total [of m g] by auto

lemma concat_err_map:
  assumes "\<And>m g. f m g = Inr (f' m g)"
  shows "concat_err (map (seg_text_err f) segs) = Inr (concat (map (seg_text f') segs))"
proof (induction segs)
  case Nil
  then show ?case by simp
next
  case (Cons x segs)
  then show ?case by (cases x) (simp_all add: assms)
qed

lemma fix_connect_calls_eq:
  "fix_connect_calls content
   = Inr (concat (map (seg_text (\<lambda>m g. projr (replacer m g))) (scan connect_pattern None content)),
          length (filter is_match (scan connect_pattern None content)))"
  unfolding fix_connect_calls_def re_subn_fn_def
  using concat_err_map [of replacer "\<lambda>m g. projr (replacer m g)"] replacer_projr
  by simp

lemma strip_params:
  assumes "list_all is_space ws3"
  shows \<open>strip (ws3 @ '','' @ ws4 @ ''['' @ body @ '']'') = '','' @ ws4 @ ''['' @ body @ '']''\<close>
proof -
  have a: \<open>dropWhile is_space (ws3 @ '','' @ ws4 @ ''['' @ body @ '']'') = '','' @ ws4 @ ''['' @ body @ '']''\<close>
    using assms by (simp add: list_all_iff is_space_def in_range_def)
  have b: \<open>dropWhile is_space (rev ('','' @ ws4 @ ''['' @ body @ '']'')) = rev ('','' @ ws4 @ ''['' @ body @ '']'')\<close>
    by (simp add: is_space_def in_range_def)
  show ?thesis unfolding strip_def a b by simp
qed


lemma strip_params_cons:
  "list_all is_space ws3 \<Longrightarrow>
   strip (ws3 @ CHR '','' # ws4 @ CHR ''['' # body @ [CHR '']''])
   = CHR '','' # ws4 @ CHR ''['' # body @ [CHR '']'']"
  using strip_params [of ws3 ws4 body] by simp

lemma connect_delta:
  assumes "(m, g) \<in> set (rm connect_pattern p s [])"
  shows "wsum lp (projr (replacer m g)) \<ge> wsum lp m + 1"
  using assms
  by (auto simp del: rm.simps
      simp add: connect_pattern_def replacer_def group_def group_text_def fmt_def Let_def
        strip_params_cons spaces_no_lp lp_def
      dest!: shape rm_Opt_E)


text \<open>
  C10. The count that \<open>fix_connect_calls\<close> returns is the number of matches that the
  scanner found and replaced, and it is 0 exactly when the returned content is the
  input: every replacement has more opening parentheses than the text it replaces.
\<close>

theorem fix_connect_calls_count:
  assumes "fix_connect_calls content = Inr (new_content, count)"
  shows "count = length (filter is_match (scan connect_pattern None content))
         \<and> new_content = concat (map (seg_text (\<lambda>m g. projr (replacer m g)))
                                      (scan connect_pattern None content))
         \<and> (count = 0 \<longleftrightarrow> new_content = content)"
proof -
  let ?segs = "scan connect_pattern None content"
  let ?f = "\<lambda>m g. projr (replacer m g)"
  from assms have c: "count = length (filter is_match ?segs)"
    and n: "new_content = concat (map (seg_text ?f) ?segs)"
    by (simp_all add: fix_connect_calls_eq)
  have ge: "wsum lp (concat (map (seg_text ?f) ?segs))
            \<ge> wsum lp (concat (map seg_src ?segs)) + 1 * int (length (filter is_match ?segs))"
    by (rule wsum_segs_ge) (use connect_delta scan_matches in blast)
  have "new_content = content" if "count = 0"
    using that c n unmatched_unchanged [of ?segs ?f] scan_src [of connect_pattern None content]
    by simp
  moreover have "new_content \<noteq> content" if "count \<noteq> 0"
  proof
    assume "new_content = content"
    with ge n have "wsum lp content \<ge> wsum lp content + int count"
      by (simp add: scan_src c)
    with that show False by simp
  qed
  ultimately show ?thesis using c n by blast
qed

theorem fix_connect_calls_count_witness:
  \<open>(2::nat) = length (filter is_match (scan connect_pattern None
        ''a.connect("x", o, "m")\<newline>b.connect("y",p,"n", [1])''))
   \<and> ''a.connect("x", Callable(o, "m"))\<newline>b.connect("y", Callable(p, "n").bind( [1]''
       = concat (map (seg_text (\<lambda>m g. projr (replacer m g)))
           (scan connect_pattern None ''a.connect("x", o, "m")\<newline>b.connect("y",p,"n", [1])''))
   \<and> ((2::nat) = 0 \<longleftrightarrow> ''a.connect("x", Callable(o, "m"))\<newline>b.connect("y", Callable(p, "n").bind( [1]''
                        = ''a.connect("x", o, "m")\<newline>b.connect("y",p,"n", [1])'')\<close>
proof -
  have m: \<open>fix_connect_calls ''a.connect("x", o, "m")\<newline>b.connect("y",p,"n", [1])''
           = Inr (''a.connect("x", Callable(o, "m"))\<newline>b.connect("y", Callable(p, "n").bind( [1]'', 2)\<close>
    by code_simp
  show ?thesis by (rule fix_connect_calls_count [OF m])
qed

section \<open>The typed-export step and the literal export steps\<close>















section \<open>The count of the typed-export step\<close>



end
